theory Spec2Isabelle
  imports Main
begin

section \<open>Decoded JSON documents and the Python operations used on them\<close>

text \<open>
  The scripts work on what \<^verbatim>\<open>json.loads\<close> returns: \<^verbatim>\<open>None\<close>, booleans, integers,
  strings, lists and dicts. A dict is an association list in insertion order; a Python
  dict holds each key once, and \<open>map_of\<close> is the lookup. The documents of these
  scripts hold whole numbers only, so a number is one of Python's unbounded integers;
  fractional numbers are left out.
\<close>

datatype json =
    JNull
  | JBool bool
  | JInt int
  | JStr string
  | JArr "json list"
  | JObj "(string \<times> json) list"

text \<open>The exceptions the modelled statements can raise.\<close>

datatype error =
    KeyError string
  | TypeError
  | AttributeError
  | JSONDecodeError

text \<open>\<^verbatim>\<open>o[k]\<close> with a string key: only a dict can be subscripted by a string.\<close>

fun py_getitem :: "json \<Rightarrow> string \<Rightarrow> error + json" where
  "py_getitem (JObj kvs) k =
     (case map_of kvs k of None \<Rightarrow> Inl (KeyError k) | Some v \<Rightarrow> Inr v)"
| "py_getitem _ k = Inl TypeError"

text \<open>\<^verbatim>\<open>o.get(k)\<close>: a dict answers \<^verbatim>\<open>None\<close> for a missing key; nothing else has \<^verbatim>\<open>get\<close>.\<close>

fun py_get :: "json \<Rightarrow> string \<Rightarrow> error + json" where
  "py_get (JObj kvs) k =
     (case map_of kvs k of None \<Rightarrow> Inr JNull | Some v \<Rightarrow> Inr v)"
| "py_get _ k = Inl AttributeError"

text \<open>
  \<^verbatim>\<open>for x in o\<close>: a list yields its elements, a dict its keys, a string its
  characters; \<^verbatim>\<open>None\<close>, booleans and integers are not iterable.
\<close>

fun py_iter :: "json \<Rightarrow> error + json list" where
  "py_iter (JArr xs) = Inr xs"
| "py_iter (JObj kvs) = Inr (map (\<lambda>kv. JStr (fst kv)) kvs)"
| "py_iter (JStr s) = Inr (map (\<lambda>c. JStr [c]) s)"
| "py_iter _ = Inl TypeError"

text \<open>Truth value testing, as in \<^verbatim>\<open>if not rule\<close>.\<close>

fun truthy :: "json \<Rightarrow> bool" where
  "truthy JNull = False"
| "truthy (JBool b) = b"
| "truthy (JInt i) = (i \<noteq> 0)"
| "truthy (JStr s) = (s \<noteq> [])"
| "truthy (JArr xs) = (xs \<noteq> [])"
| "truthy (JObj kvs) = (kvs \<noteq> [])"

section \<open>nft-delete-rule.py\<close>

subsection \<open>\<^verbatim>\<open>rule_has_counter\<close>\<close>

text \<open>
  \<^verbatim>\<open>
  for expr in rule["expr"]:
      if expr.get("counter") is not None:
          return True
  return False
  \<close>
  The loop returns at the first entry whose \<^verbatim>\<open>get\<close> is not \<^verbatim>\<open>None\<close>; entries after
  it are never looked at.
\<close>

fun rule_has_counter_loop :: "json list \<Rightarrow> error + bool" where
  "rule_has_counter_loop [] = Inr False"
| "rule_has_counter_loop (expr # rest) =
     (case py_get expr ''counter'' of
        Inl e \<Rightarrow> Inl e
      | Inr c \<Rightarrow> if c \<noteq> JNull then Inr True else rule_has_counter_loop rest)"

definition rule_has_counter :: "json \<Rightarrow> error + bool" where
  "rule_has_counter rule =
     (case py_getitem rule ''expr'' of
        Inl e \<Rightarrow> Inl e
      | Inr exprs \<Rightarrow>
          (case py_iter exprs of
             Inl e \<Rightarrow> Inl e
           | Inr es \<Rightarrow> rule_has_counter_loop es))"

subsection \<open>\<^verbatim>\<open>search_rules_with_counter\<close>\<close>

text \<open>
  \<^verbatim>\<open>dict(family=rule["family"], table=rule["table"], chain=rule["chain"],
       handle=rule["handle"])\<close>: the four lookups run left to right and the first
  failing one raises.
\<close>

definition rule_info :: "json \<Rightarrow> error + json" where
  "rule_info rule =
     (case py_getitem rule ''family'' of
        Inl e \<Rightarrow> Inl e
      | Inr f \<Rightarrow>
     (case py_getitem rule ''table'' of
        Inl e \<Rightarrow> Inl e
      | Inr t \<Rightarrow>
     (case py_getitem rule ''chain'' of
        Inl e \<Rightarrow> Inl e
      | Inr c \<Rightarrow>
     (case py_getitem rule ''handle'' of
        Inl e \<Rightarrow> Inl e
      | Inr h \<Rightarrow>
          Inr (JObj [(''family'', f), (''table'', t), (''chain'', c), (''handle'', h)])))))"

text \<open>
  The body of the \<^verbatim>\<open>for object in data_structure["nftables"]\<close> loop, with the list
  \<^verbatim>\<open>ret\<close> built so far as state; \<^verbatim>\<open>continue\<close> goes on with \<^verbatim>\<open>ret\<close> unchanged.
\<close>

fun search_loop :: "json list \<Rightarrow> json list \<Rightarrow> error + json list" where
  "search_loop [] ret = Inr ret"
| "search_loop (object # rest) ret =
     (case py_get object ''rule'' of
        Inl e \<Rightarrow> Inl e
      | Inr rule \<Rightarrow>
          if \<not> truthy rule then search_loop rest ret
          else
            (case rule_has_counter rule of
               Inl e \<Rightarrow> Inl e
             | Inr has \<Rightarrow>
                 if \<not> has then search_loop rest ret
                 else
                   (case rule_info rule of
                      Inl e \<Rightarrow> Inl e
                    | Inr info \<Rightarrow> search_loop rest (ret @ [info]))))"

definition search_rules_with_counter :: "json \<Rightarrow> error + json list" where
  "search_rules_with_counter data_structure =
     (case py_getitem data_structure ''nftables'' of
        Inl e \<Rightarrow> Inl e
      | Inr stmts \<Rightarrow>
          (case py_iter stmts of
             Inl e \<Rightarrow> Inl e
           | Inr objects \<Rightarrow> search_loop objects []))"

subsection \<open>Step 3 of \<^verbatim>\<open>main\<close>: the delete command\<close>

text \<open>
  \<^verbatim>\<open>
  delete_rules_command = dict(nftables=[])
  delete_rules_command["nftables"] = []
  delete_rules_command["nftables"].append(dict(metainfo=dict(json_schema_version=1)))
  for rule_info in info_about_rules_to_delete:
      delete_rules_command["nftables"].append(dict(delete=rule_info))
  \<close>
  The loop appends to the list under \<^verbatim>\<open>"nftables"\<close>, which is the state here.
\<close>

definition metainfo_entry :: json where
  "metainfo_entry = JObj [(''metainfo'', JObj [(''json_schema_version'', JInt 1)])]"

fun delete_loop :: "json list \<Rightarrow> json list \<Rightarrow> json list" where
  "delete_loop [] cmds = cmds"
| "delete_loop (info # rest) cmds = delete_loop rest (cmds @ [JObj [(''delete'', info)]])"

definition build_delete_command :: "json list \<Rightarrow> json" where
  "build_delete_command info_about_rules_to_delete =
     JObj [(''nftables'', JArr (delete_loop info_about_rules_to_delete ([] @ [metainfo_entry])))]"

text \<open>Steps 2 and 3 of \<^verbatim>\<open>main\<close> on the ruleset the kernel returned.\<close>

definition delete_rules_command :: "json \<Rightarrow> error + json" where
  "delete_rules_command kernel_ruleset =
     (case search_rules_with_counter kernel_ruleset of
        Inl e \<Rightarrow> Inl e
      | Inr info_about_rules_to_delete \<Rightarrow> Inr (build_delete_command info_about_rules_to_delete))"

section \<open>nft-read-counters-and-quotas.py\<close>

subsection \<open>\<^verbatim>\<open>_find_objects\<close>\<close>

text \<open>
  \<^verbatim>\<open>type in o\<close>: key membership for a dict, element membership for a list (only a
  string equals a string), substring test for a string, \<^verbatim>\<open>TypeError\<close> otherwise.
\<close>

fun starts_with :: "string \<Rightarrow> string \<Rightarrow> bool" where
  "starts_with s [] = True"
| "starts_with [] (c # t) = False"
| "starts_with (d # s) (c # t) = (d = c \<and> starts_with s t)"

fun str_contains :: "string \<Rightarrow> string \<Rightarrow> bool" where
  "str_contains [] t = (t = [])"
| "str_contains (d # s) t = (starts_with (d # s) t \<or> str_contains s t)"

fun py_contains :: "string \<Rightarrow> json \<Rightarrow> error + bool" where
  "py_contains k (JObj kvs) = Inr (map_of kvs k \<noteq> None)"
| "py_contains k (JArr xs) = Inr (JStr k \<in> set xs)"
| "py_contains k (JStr s) = Inr (str_contains s k)"
| "py_contains k _ = Inl TypeError"

text \<open>
  \<^verbatim>\<open>[o[type] for o in ruleset if type in o]\<close>: the comprehension appends to the list
  it builds, and the first exception ends it.
\<close>

fun find_objects_loop :: "json list \<Rightarrow> string \<Rightarrow> json list \<Rightarrow> error + json list" where
  "find_objects_loop [] type acc = Inr acc"
| "find_objects_loop (obj # rest) type acc =
     (case py_contains type obj of
        Inl e \<Rightarrow> Inl e
      | Inr present \<Rightarrow>
          if present then
            (case py_getitem obj type of
               Inl e \<Rightarrow> Inl e
             | Inr v \<Rightarrow> find_objects_loop rest type (acc @ [v]))
          else find_objects_loop rest type acc)"

definition find_objects :: "json \<Rightarrow> string \<Rightarrow> error + json list" where
  "find_objects ruleset type =
     (case py_iter ruleset of
        Inl e \<Rightarrow> Inl e
      | Inr objs \<Rightarrow> find_objects_loop objs type [])"

subsection \<open>\<^verbatim>\<open>nft_cmd\<close>\<close>






section \<open>nft-delete-rule.py on a store of objects\<close>

text \<open>
  Python lists and dicts are objects with identity: \<^verbatim>\<open>ret.append\<close> writes into the
  list object \<^verbatim>\<open>ret\<close> refers to, and \<^verbatim>\<open>dict(...)\<close> creates a new object. To state what
  the search writes, the same function is modelled a second time on an explicit store:
  a value is \<^verbatim>\<open>None\<close>, a boolean, an integer, a string (all immutable) or a reference
  to a cell that holds a list or a dict. Cells below \<open>free\<close> are allocated; a new
  object takes the cell \<open>free\<close>.
\<close>

type_synonym addr = nat

datatype val = VNone | VBool bool | VInt int | VStr string | VRef addr

datatype obj = OList "val list" | ODict "(string \<times> val) list"

record store =
  cells :: "addr \<Rightarrow> obj"
  free :: addr

definition alloc :: "store \<Rightarrow> obj \<Rightarrow> store \<times> addr" where
  "alloc s ob = (s\<lparr>cells := (cells s)(free s := ob), free := Suc (free s)\<rparr>, free s)"

text \<open>The operations of the first section, reading through references.\<close>

fun h_getitem :: "store \<Rightarrow> val \<Rightarrow> string \<Rightarrow> error + val" where
  "h_getitem s (VRef a) k =
     (case cells s a of
        ODict kvs \<Rightarrow> (case map_of kvs k of None \<Rightarrow> Inl (KeyError k) | Some v \<Rightarrow> Inr v)
      | OList xs \<Rightarrow> Inl TypeError)"
| "h_getitem s _ k = Inl TypeError"

fun h_get :: "store \<Rightarrow> val \<Rightarrow> string \<Rightarrow> error + val" where
  "h_get s (VRef a) k =
     (case cells s a of
        ODict kvs \<Rightarrow> (case map_of kvs k of None \<Rightarrow> Inr VNone | Some v \<Rightarrow> Inr v)
      | OList xs \<Rightarrow> Inl AttributeError)"
| "h_get s _ k = Inl AttributeError"

fun h_truthy :: "store \<Rightarrow> val \<Rightarrow> bool" where
  "h_truthy s VNone = False"
| "h_truthy s (VBool b) = b"
| "h_truthy s (VInt i) = (i \<noteq> 0)"
| "h_truthy s (VStr str) = (str \<noteq> [])"
| "h_truthy s (VRef a) = (case cells s a of OList xs \<Rightarrow> xs \<noteq> [] | ODict kvs \<Rightarrow> kvs \<noteq> [])"

fun h_iter :: "store \<Rightarrow> val \<Rightarrow> error + val list" where
  "h_iter s (VRef a) =
     (case cells s a of
        OList xs \<Rightarrow> Inr xs
      | ODict kvs \<Rightarrow> Inr (map (\<lambda>kv. VStr (fst kv)) kvs))"
| "h_iter s (VStr str) = Inr (map (\<lambda>c. VStr [c]) str)"
| "h_iter s _ = Inl TypeError"

text \<open>\<^verbatim>\<open>l.append(x)\<close> writes the cell of \<^verbatim>\<open>l\<close>; only a list has \<^verbatim>\<open>append\<close>.\<close>

fun h_append :: "store \<Rightarrow> val \<Rightarrow> val \<Rightarrow> error + store" where
  "h_append s (VRef a) x =
     (case cells s a of
        OList xs \<Rightarrow> Inr (s\<lparr>cells := (cells s)(a := OList (xs @ [x]))\<rparr>)
      | ODict kvs \<Rightarrow> Inl AttributeError)"
| "h_append s _ x = Inl AttributeError"

text \<open>
  \<^verbatim>\<open>rule_has_counter\<close> only reads: it takes the store and returns no new one, and its
  loop runs over the items \<^verbatim>\<open>rule["expr"]\<close> holds when the loop starts.
\<close>

fun rule_has_counter_loop_h :: "store \<Rightarrow> val list \<Rightarrow> error + bool" where
  "rule_has_counter_loop_h s [] = Inr False"
| "rule_has_counter_loop_h s (expr # rest) =
     (case h_get s expr ''counter'' of
        Inl e \<Rightarrow> Inl e
      | Inr c \<Rightarrow> if c \<noteq> VNone then Inr True else rule_has_counter_loop_h s rest)"

definition rule_has_counter_h :: "store \<Rightarrow> val \<Rightarrow> error + bool" where
  "rule_has_counter_h s rule =
     (case h_getitem s rule ''expr'' of
        Inl e \<Rightarrow> Inl e
      | Inr exprs \<Rightarrow>
          (case h_iter s exprs of
             Inl e \<Rightarrow> Inl e
           | Inr es \<Rightarrow> rule_has_counter_loop_h s es))"

text \<open>The four lookups, then the new dict in a new cell.\<close>

definition rule_info_h :: "store \<Rightarrow> val \<Rightarrow> error + store \<times> val" where
  "rule_info_h s rule =
     (case h_getitem s rule ''family'' of
        Inl e \<Rightarrow> Inl e
      | Inr f \<Rightarrow>
     (case h_getitem s rule ''table'' of
        Inl e \<Rightarrow> Inl e
      | Inr t \<Rightarrow>
     (case h_getitem s rule ''chain'' of
        Inl e \<Rightarrow> Inl e
      | Inr c \<Rightarrow>
     (case h_getitem s rule ''handle'' of
        Inl e \<Rightarrow> Inl e
      | Inr h \<Rightarrow>
          (case alloc s (ODict [(''family'', f), (''table'', t), (''chain'', c), (''handle'', h)]) of
             (s', a) \<Rightarrow> Inr (s', VRef a))))))"

text \<open>
  One pass through the body of the \<^verbatim>\<open>for\<close> loop: the store after it, and the
  exception if one was raised.
\<close>

definition search_body_h :: "store \<Rightarrow> val \<Rightarrow> val \<Rightarrow> store \<times> error option" where
  "search_body_h s object ret =
     (case h_get s object ''rule'' of
        Inl e \<Rightarrow> (s, Some e)
      | Inr rule \<Rightarrow>
          if \<not> h_truthy s rule then (s, None)
          else
            (case rule_has_counter_h s rule of
               Inl e \<Rightarrow> (s, Some e)
             | Inr has \<Rightarrow>
                 if \<not> has then (s, None)
                 else
                   (case rule_info_h s rule of
                      Inl e \<Rightarrow> (s, Some e)
                    | Inr (s1, info) \<Rightarrow>
                        (case h_append s1 ret info of
                           Inl e \<Rightarrow> (s1, Some e)
                         | Inr s2 \<Rightarrow> (s2, None)))))"

text \<open>
  The \<^verbatim>\<open>for\<close> statement asks its iterator for the next item before each pass. A list
  iterator is the list's cell and an index, and reads the cell as it is at that
  moment, so writes of the body to that list would be seen. The keys of a dict and the
  characters of a string are taken when the loop starts: the body writes no dict cell
  and strings are immutable.
\<close>

datatype iterator = ListIter addr nat | ItemsIter "val list"

fun h_iterator :: "store \<Rightarrow> val \<Rightarrow> error + iterator" where
  "h_iterator s (VRef a) =
     (case cells s a of
        OList xs \<Rightarrow> Inr (ListIter a 0)
      | ODict kvs \<Rightarrow> Inr (ItemsIter (map (\<lambda>kv. VStr (fst kv)) kvs)))"
| "h_iterator s (VStr str) = Inr (ItemsIter (map (\<lambda>c. VStr [c]) str))"
| "h_iterator s _ = Inl TypeError"

fun h_next :: "store \<Rightarrow> iterator \<Rightarrow> (val \<times> iterator) option" where
  "h_next s (ListIter a i) =
     (case cells s a of
        OList xs \<Rightarrow> if i < length xs then Some (xs ! i, ListIter a (Suc i)) else None
      | ODict kvs \<Rightarrow> None)"
| "h_next s (ItemsIter []) = None"
| "h_next s (ItemsIter (x # xs)) = Some (x, ItemsIter xs)"

text \<open>
  With a list iterator the loop need not end (a body that appends to the list it
  iterates never reaches its end), so the loop is a partial function: \<open>None\<close> stands
  for a run that does not return.
\<close>

partial_function (option) search_loop_h ::
  "store \<Rightarrow> iterator \<Rightarrow> val \<Rightarrow> (store \<times> error option) option" where
  "search_loop_h s it ret =
     (case h_next s it of
        None \<Rightarrow> Some (s, None)
      | Some (object, it') \<Rightarrow>
          (case search_body_h s object ret of
             (s', Some e) \<Rightarrow> Some (s', Some e)
           | (s', None) \<Rightarrow> search_loop_h s' it' ret))"

text \<open>
  \<^verbatim>\<open>ret = []\<close> creates the result list first; then \<^verbatim>\<open>data_structure["nftables"]\<close> is
  evaluated and iterated; \<^verbatim>\<open>return ret\<close> gives the reference to the result list.
\<close>

definition search_rules_with_counter_h :: "store \<Rightarrow> val \<Rightarrow> (store \<times> (error + val)) option" where
  "search_rules_with_counter_h s data_structure =
     (case alloc s (OList []) of
        (s0, a) \<Rightarrow>
          (case h_getitem s0 data_structure ''nftables'' of
             Inl e \<Rightarrow> Some (s0, Inl e)
           | Inr stmts \<Rightarrow>
               (case h_iterator s0 stmts of
                  Inl e \<Rightarrow> Some (s0, Inl e)
                | Inr it \<Rightarrow>
                    (case search_loop_h s0 it (VRef a) of
                       None \<Rightarrow> None
                     | Some (s', Some e) \<Rightarrow> Some (s', Inl e)
                     | Some (s', None) \<Rightarrow> Some (s', Inr (VRef a))))))"

subsection \<open>Documents in a store\<close>

text \<open>
  \<open>repr A s v j\<close>: in store \<open>s\<close> the value \<open>v\<close> holds the decoded document \<open>j\<close>, and
  every cell read on the way is in \<open>A\<close>. Key order and values of a dict agree entry by
  entry.
\<close>

fun repr :: "addr set \<Rightarrow> store \<Rightarrow> val \<Rightarrow> json \<Rightarrow> bool" where
  "repr A s v JNull = (v = VNone)"
| "repr A s v (JBool b) = (v = VBool b)"
| "repr A s v (JInt i) = (v = VInt i)"
| "repr A s v (JStr str) = (v = VStr str)"
| "repr A s v (JArr js) =
     (case v of
        VRef a \<Rightarrow> a \<in> A \<and> (case cells s a of OList vs \<Rightarrow> list_all2 (repr A s) vs js | _ \<Rightarrow> False)
      | _ \<Rightarrow> False)"
| "repr A s v (JObj jkvs) =
     (case v of
        VRef a \<Rightarrow> a \<in> A \<and>
          (case cells s a of
             ODict kvs \<Rightarrow> list_all2 (\<lambda>kv jkv. fst kv = fst jkv \<and> repr A s (snd kv) (snd jkv)) kvs jkvs
           | _ \<Rightarrow> False)
      | _ \<Rightarrow> False)"

text \<open>
  References to pairwise distinct cells above \<open>r\<close> and below \<open>free s\<close>: cells created
  after the cell \<open>r\<close>.
\<close>

definition fresh_refs :: "addr \<Rightarrow> store \<Rightarrow> val list \<Rightarrow> bool" where
  "fresh_refs r s vs =
     (list_all (\<lambda>v. case v of VRef b \<Rightarrow> r < b \<and> b < free s | _ \<Rightarrow> False) vs \<and> distinct vs)"

text \<open>
  The allocated cells other than \<open>r\<close>; the items an iterator still has to yield; an
  iterator whose list cell lies in \<open>A\<close>.
\<close>

definition live :: "store \<Rightarrow> addr \<Rightarrow> addr set" where
  "live s r = {a. a < free s \<and> a \<noteq> r}"

fun iter_items :: "store \<Rightarrow> iterator \<Rightarrow> val list" where
  "iter_items s (ListIter a i) = (case cells s a of OList xs \<Rightarrow> drop i xs | ODict kvs \<Rightarrow> [])"
| "iter_items s (ItemsIter vs) = vs"

definition iter_ok :: "addr set \<Rightarrow> iterator \<Rightarrow> bool" where
  "iter_ok A it = (case it of ListIter a i \<Rightarrow> a \<in> A | ItemsIter vs \<Rightarrow> True)"

section \<open>Shapes of documents\<close>

text \<open>An entry is tagged \<open>t\<close> when it is a dict that has the key \<open>t\<close>.\<close>

fun is_dict :: "json \<Rightarrow> bool" where
  "is_dict (JObj kvs) = True"
| "is_dict _ = False"

fun field :: "string \<Rightarrow> json \<Rightarrow> json option" where
  "field k (JObj kvs) = map_of kvs k"
| "field k _ = None"

definition tagged :: "string \<Rightarrow> json \<Rightarrow> bool" where
  "tagged t entry = (field t entry \<noteq> None)"

text \<open>
  A well-formed rule payload carries \<^verbatim>\<open>family\<close>, \<^verbatim>\<open>table\<close>, \<^verbatim>\<open>chain\<close>, \<^verbatim>\<open>handle\<close> and
  an \<^verbatim>\<open>expr\<close> list of dicts; a well-formed statement is a dict whose \<^verbatim>\<open>rule\<close>
  payload, if it has one, is well formed; a well-formed ruleset is a dict with a list
  of well-formed statements under \<^verbatim>\<open>nftables\<close>.
\<close>

definition wf_rule :: "json \<Rightarrow> bool" where
  "wf_rule rule =
     (is_dict rule \<and> tagged ''family'' rule \<and> tagged ''table'' rule \<and> tagged ''chain'' rule
      \<and> tagged ''handle'' rule
      \<and> (case field ''expr'' rule of Some (JArr es) \<Rightarrow> list_all is_dict es | _ \<Rightarrow> False))"

definition wf_statement :: "json \<Rightarrow> bool" where
  "wf_statement stmt =
     (is_dict stmt \<and> (case field ''rule'' stmt of None \<Rightarrow> True | Some rule \<Rightarrow> wf_rule rule))"

definition wf_ruleset :: "json \<Rightarrow> bool" where
  "wf_ruleset doc =
     (case field ''nftables'' doc of Some (JArr stmts) \<Rightarrow> list_all wf_statement stmts | _ \<Rightarrow> False)"

text \<open>
  A selector as \<^verbatim>\<open>search_rules_with_counter\<close> builds it: a dict with exactly the keys
  \<^verbatim>\<open>family\<close>, \<^verbatim>\<open>table\<close>, \<^verbatim>\<open>chain\<close> and \<^verbatim>\<open>handle\<close>, in that order.
\<close>

fun is_selector :: "json \<Rightarrow> bool" where
  "is_selector (JObj kvs) = (map fst kvs = [''family'', ''table'', ''chain'', ''handle''])"
| "is_selector _ = False"

text \<open>
  The specification's operation, in its words: scan the statements in order; for each
  entry tagged \<^verbatim>\<open>rule\<close> evaluate the predicate on its payload and, if it holds, project
  the payload to its selector. The default predicate is
  \<^verbatim>\<open>has_counter(rule) = exists e in rule.expr such that e is tagged "counter"\<close>.
\<close>

definition has_counter_spec :: "json \<Rightarrow> bool" where
  "has_counter_spec rule =
     (case field ''expr'' rule of Some (JArr es) \<Rightarrow> list_ex (tagged ''counter'') es | _ \<Rightarrow> False)"

definition selector_spec :: "json \<Rightarrow> json option" where
  "selector_spec rule =
     (case (field ''family'' rule, field ''table'' rule, field ''chain'' rule, field ''handle'' rule) of
        (Some f, Some t, Some c, Some h) \<Rightarrow>
          Some (JObj [(''family'', f), (''table'', t), (''chain'', c), (''handle'', h)])
      | _ \<Rightarrow> None)"

definition find_matching_rules_spec :: "(json \<Rightarrow> bool) \<Rightarrow> json list \<Rightarrow> json list" where
  "find_matching_rules_spec predicate stmts =
     List.map_filter
       (\<lambda>stmt. case field ''rule'' stmt of
                 None \<Rightarrow> None
               | Some rule \<Rightarrow> if predicate rule then selector_spec rule else None)
       stmts"



section \<open>Concrete documents\<close>

text \<open>
  The three rules of \<^verbatim>\<open>NFTABLES_RULESET_JSON\<close> in nft-delete-rule.py, decoded: each
  matches a destination port and accepts; the second one counts as well, written
  \<^verbatim>\<open>{ "counter": null }\<close>.
\<close>

definition dport_match :: "string \<Rightarrow> int \<Rightarrow> json" where
  "dport_match protocol port =
     JObj [(''match'', JObj [(''op'', JStr ''==''),
        (''left'', JObj [(''payload'', JObj [(''protocol'', JStr protocol), (''field'', JStr ''dport'')])]),
        (''right'', JInt port)])]"

definition literal_rule :: "json list \<Rightarrow> json" where
  "literal_rule exprs =
     JObj [(''family'', JStr ''inet''), (''table'', JStr ''mytable''), (''chain'', JStr ''mychain''),
           (''expr'', JArr exprs)]"

definition udp_53_exprs :: "json list" where
  "udp_53_exprs = [dport_match ''udp'' 53, JObj [(''accept'', JNull)]]"

definition tcp_22_counter_exprs :: "json \<Rightarrow> json list" where
  "tcp_22_counter_exprs counter =
     [dport_match ''tcp'' 22, JObj [(''counter'', counter)], JObj [(''accept'', JNull)]]"

definition tcp_80_exprs :: "json list" where
  "tcp_80_exprs = [dport_match ''tcp'' 80, JObj [(''accept'', JNull)]]"

definition NFTABLES_RULESET_JSON :: json where
  "NFTABLES_RULESET_JSON =
     JObj [(''nftables'', JArr [
       JObj [(''flush'', JObj [(''ruleset'', JNull)])],
       JObj [(''add'', JObj [(''table'', JObj [(''family'', JStr ''inet''), (''name'', JStr ''mytable'')])])],
       JObj [(''add'', JObj [(''chain'', JObj [(''family'', JStr ''inet''), (''table'', JStr ''mytable''),
                                            (''name'', JStr ''mychain'')])])],
       JObj [(''add'', JObj [(''rule'', literal_rule udp_53_exprs)])],
       JObj [(''add'', JObj [(''rule'', literal_rule (tcp_22_counter_exprs JNull))])],
       JObj [(''add'', JObj [(''rule'', literal_rule tcp_80_exprs)])]])]"

text \<open>
  A listing of that ruleset in the shape \<^verbatim>\<open>search_rules_with_counter\<close> reads: a
  metainfo entry, the table, the chain and the three rules with handles 2, 3 and 4.
  The value under \<^verbatim>\<open>"counter"\<close> in the second rule is a parameter.
\<close>

definition listed_rule :: "int \<Rightarrow> json list \<Rightarrow> json" where
  "listed_rule handle exprs =
     JObj [(''rule'',
       JObj [(''family'', JStr ''inet''), (''table'', JStr ''mytable''), (''chain'', JStr ''mychain''),
             (''handle'', JInt handle), (''expr'', JArr exprs)])]"

definition listed_statements :: "json \<Rightarrow> json list" where
  "listed_statements counter =
     [JObj [(''metainfo'', JObj [(''version'', JStr ''1.0.9''), (''release_name'', JStr ''Old Doc Yak #3''),
                                (''json_schema_version'', JInt 1)])],
      JObj [(''table'', JObj [(''family'', JStr ''inet''), (''name'', JStr ''mytable''), (''handle'', JInt 1)])],
      JObj [(''chain'', JObj [(''family'', JStr ''inet''), (''table'', JStr ''mytable''),
                             (''name'', JStr ''mychain''), (''handle'', JInt 1)])],
      listed_rule 2 udp_53_exprs,
      listed_rule 3 (tcp_22_counter_exprs counter),
      listed_rule 4 tcp_80_exprs]"

definition listed_ruleset :: "json \<Rightarrow> json" where
  "listed_ruleset counter = JObj [(''nftables'', JArr (listed_statements counter))]"

definition selector :: "int \<Rightarrow> json" where
  "selector handle =
     JObj [(''family'', JStr ''inet''), (''table'', JStr ''mytable''), (''chain'', JStr ''mychain''),
           (''handle'', JInt handle)]"

definition zero_counter :: json where
  "zero_counter = JObj [(''packets'', JInt 0), (''bytes'', JInt 0)]"

text \<open>
  A statement whose rule, if it has one, gives every \<^verbatim>\<open>"counter"\<close> key of its
  expressions a value other than \<^verbatim>\<open>null\<close>.
\<close>

definition counters_have_values :: "json \<Rightarrow> bool" where
  "counters_have_values stmt =
     (case field ''rule'' stmt of
        None \<Rightarrow> True
      | Some rule \<Rightarrow>
          (case field ''expr'' rule of
             Some (JArr es) \<Rightarrow> list_all (\<lambda>e. field ''counter'' e \<noteq> Some JNull) es
           | _ \<Rightarrow> True))"

text \<open>
  The answer to \<^verbatim>\<open>list counters\<close> in the shape nft-read-counters-and-quotas.py reads,
  for the counter of that script's header; the schema version is a parameter.
\<close>

definition listed_counters :: "int \<Rightarrow> json list" where
  "listed_counters schema_version =
     [JObj [(''metainfo'', JObj [(''version'', JStr ''1.0.9''), (''release_name'', JStr ''Old Doc Yak #3''),
                                (''json_schema_version'', JInt schema_version)])],
      JObj [(''counter'', JObj [(''family'', JStr ''ip''), (''name'', JStr ''mycounter''),
                               (''table'', JStr ''mytable''), (''handle'', JInt 1),
                               (''packets'', JInt 0), (''bytes'', JInt 0)])]]"

text \<open>
  A store that holds a listing with one table and one rule with a counter, the
  document at reference 0, and the document it holds.
\<close>

definition example_cells :: "addr \<Rightarrow> obj" where
  "example_cells =
     (\<lambda>a. OList [])
       (0 := ODict [(''nftables'', VRef 1)],
        1 := OList [VRef 2, VRef 3],
        2 := ODict [(''table'', VRef 4)],
        3 := ODict [(''rule'', VRef 5)],
        4 := ODict [(''family'', VStr ''inet''), (''name'', VStr ''mytable''), (''handle'', VInt 1)],
        5 := ODict [(''family'', VStr ''inet''), (''table'', VStr ''mytable''),
                    (''chain'', VStr ''mychain''), (''handle'', VInt 3), (''expr'', VRef 6)],
        6 := OList [VRef 7, VRef 8],
        7 := ODict [(''counter'', VRef 9)],
        8 := ODict [(''accept'', VNone)],
        9 := ODict [(''packets'', VInt 0), (''bytes'', VInt 0)])"

definition example_store :: store where
  "example_store = \<lparr>cells = example_cells, free = 10\<rparr>"

definition example_doc :: json where
  "example_doc =
     JObj [(''nftables'', JArr [
       JObj [(''table'', JObj [(''family'', JStr ''inet''), (''name'', JStr ''mytable''), (''handle'', JInt 1)])],
       JObj [(''rule'', JObj [(''family'', JStr ''inet''), (''table'', JStr ''mytable''),
                         (''chain'', JStr ''mychain''), (''handle'', JInt 3),
                         (''expr'', JArr [JObj [(''counter'', zero_counter)], JObj [(''accept'', JNull)]])])]])]"

section \<open>Properties of the loops\<close>

lemmas fixture_defs =
  dport_match_def literal_rule_def udp_53_exprs_def tcp_22_counter_exprs_def tcp_80_exprs_def
  listed_rule_def listed_statements_def listed_ruleset_def selector_def zero_counter_def

lemma delete_loop_append:
  "delete_loop infos cmds = cmds @ map (\<lambda>info. JObj [(''delete'', info)]) infos"
  by (induction infos arbitrary: cmds) simp_all

text \<open>The list \<^verbatim>\<open>ret\<close> only grows at its end: what the loop adds does not depend on it.\<close>

lemma search_loop_ret:
  "search_loop objs ret =
     (case search_loop objs [] of Inl e \<Rightarrow> Inl e | Inr r \<Rightarrow> Inr (ret @ r))"
proof (induction objs arbitrary: ret)
  case Nil
  show ?case by simp
next
  case (Cons object rest)
  have a: "search_loop rest (ret @ [i]) =
           (case search_loop rest [i] of Inl e \<Rightarrow> Inl e | Inr r \<Rightarrow> Inr (ret @ r))" for i
    using Cons.IH [of "ret @ [i]"] Cons.IH [of "[i]"]
    by (cases "search_loop rest []") simp_all
  show ?case
    using Cons.IH [of ret] a
    by (simp split: sum.splits)
qed

lemma search_loop_append:
  "search_loop (xs @ ys) ret =
     (case search_loop xs ret of Inl e \<Rightarrow> Inl e | Inr r \<Rightarrow> search_loop ys r)"
  by (induction xs arbitrary: ret) (simp_all split: sum.splits)

lemma search_loop_untagged:
  "is_dict stmt \<Longrightarrow> \<not> tagged ''rule'' stmt \<Longrightarrow>
     search_loop (stmt # post) ret = search_loop post ret"
  by (cases stmt) (simp_all add: tagged_def)

lemma search_loop_falsy:
  "field ''rule'' stmt = Some payload \<Longrightarrow> \<not> truthy payload \<Longrightarrow>
     search_loop (stmt # post) ret = search_loop post ret"
  by (cases stmt) simp_all

lemma rule_has_counter_loop_total:
  "list_all is_dict es \<Longrightarrow> \<exists>b. rule_has_counter_loop es = Inr b"
proof (induction es)
  case Nil
  show ?case by auto
next
  case (Cons e es)
  from Cons.prems obtain kvs where e: "e = JObj kvs" by (cases e) simp_all
  from Cons obtain b where "rule_has_counter_loop es = Inr b" by auto
  with e show ?case by (auto split: option.splits)
qed

lemma wf_rule_has_counter:
  assumes "wf_rule rule"
  shows "\<exists>b. rule_has_counter rule = Inr b"
proof -
  from assms obtain kvs es where r: "rule = JObj kvs" "map_of kvs ''expr'' = Some (JArr es)"
      "list_all is_dict es"
    by (cases rule) (auto simp: wf_rule_def split: option.splits json.splits)
  from rule_has_counter_loop_total [OF r(3)] r(1,2) show ?thesis
    by (simp add: rule_has_counter_def)
qed

lemma wf_rule_info: "wf_rule rule \<Longrightarrow> \<exists>info. rule_info rule = Inr info \<and> is_selector info"
  by (cases rule) (auto simp: wf_rule_def rule_info_def tagged_def)

lemma wf_search_loop:
  "list_all wf_statement stmts \<Longrightarrow> list_all is_selector ret \<Longrightarrow>
     \<exists>infos. search_loop stmts ret = Inr infos \<and> list_all is_selector infos"
proof (induction stmts arbitrary: ret)
  case Nil
  then show ?case by simp
next
  case (Cons stmt stmts)
  from Cons.prems obtain kvs where s: "stmt = JObj kvs"
    by (cases stmt) (simp_all add: wf_statement_def)
  from Cons.prems have rest: "list_all wf_statement stmts" by simp
  show ?case
  proof (cases "map_of kvs ''rule''")
    case None
    with s Cons.IH [OF rest Cons.prems(2)] show ?thesis by simp
  next
    case (Some rule)
    with s Cons.prems have w: "wf_rule rule" by (simp add: wf_statement_def)
    from wf_rule_has_counter [OF w] obtain b where b: "rule_has_counter rule = Inr b" ..
    from wf_rule_info [OF w] obtain info where i: "rule_info rule = Inr info" "is_selector info"
      by blast
    from Cons.prems(2) i(2) have "list_all is_selector (ret @ [info])" by simp
    from Cons.IH [OF rest this] Cons.IH [OF rest Cons.prems(2)] s Some b i(1)
    show ?thesis by simp
  qed
qed

section \<open>The delete command\<close>

text \<open>
  C3. For every sequence of selectors, the delete command holds one directive per
  selector after the metadata entry: as many directives as selectors, in the same
  order, each wrapping its selector unchanged. Reading the value under \<^verbatim>\<open>"delete"\<close>
  of each directive gives back the input sequence, family, table, chain and handle
  included. This holds for the empty sequence too.
\<close>

theorem build_delete_command_roundtrip:
  "\<exists>directives.
     build_delete_command S = JObj [(''nftables'', JArr (metainfo_entry # directives))]
     \<and> length directives = length S
     \<and> directives = map (\<lambda>info. JObj [(''delete'', info)]) S
     \<and> map (\<lambda>d. py_getitem d ''delete'') directives = map Inr S"
  by (simp add: build_delete_command_def delete_loop_append comp_def)

text \<open>
  C4. For every sequence of selectors, the first entry of the delete command is the
  metadata entry with \<^verbatim>\<open>json_schema_version\<close> 1 and the entries after it are the
  deletion directives, none of which is a metadata entry. For the empty sequence the
  command holds the metadata entry and nothing else.
\<close>

theorem build_delete_command_metainfo_first:
  "(\<exists>directives.
      py_getitem (build_delete_command S) ''nftables'' =
        Inr (JArr (JObj [(''metainfo'', JObj [(''json_schema_version'', JInt 1)])] # directives))
      \<and> length directives = length S
      \<and> list_all (tagged ''delete'') directives
      \<and> \<not> list_ex (tagged ''metainfo'') directives)
   \<and> build_delete_command [] =
       JObj [(''nftables'', JArr [JObj [(''metainfo'', JObj [(''json_schema_version'', JInt 1)])]])]"
  by (simp add: build_delete_command_def delete_loop_append metainfo_entry_def
        list_all_iff list_ex_iff tagged_def)

section \<open>The search\<close>

text \<open>
  C5. On a well-formed ruleset (a dict with a list of dict statements under
  \<^verbatim>\<open>nftables\<close>, where every \<^verbatim>\<open>rule\<close> payload carries family, table, chain, handle and
  an \<^verbatim>\<open>expr\<close> list of dicts) the search raises nothing and returns a list of
  selectors, each a dict with the keys family, table, chain and handle. The search
  followed by the construction of the delete command raises nothing either and
  produces a delete command document: a dict whose \<^verbatim>\<open>nftables\<close> list starts with the
  metainfo entry of schema version 1 and goes on with one \<^verbatim>\<open>{"delete": selector}\<close>
  per selector found, in the order found.
\<close>

theorem search_and_delete_total:
  assumes "wf_ruleset doc"
  shows "\<exists>infos. search_rules_with_counter doc = Inr infos
           \<and> list_all is_selector infos
           \<and> delete_rules_command doc =
               Inr (JObj [(''nftables'',
                      JArr (JObj [(''metainfo'', JObj [(''json_schema_version'', JInt 1)])]
                            # map (\<lambda>info. JObj [(''delete'', info)]) infos))])"
proof -
  from assms obtain kvs stmts where d: "doc = JObj kvs"
      "map_of kvs ''nftables'' = Some (JArr stmts)" "list_all wf_statement stmts"
    by (cases doc) (auto simp: wf_ruleset_def split: option.splits json.splits)
  have "list_all is_selector []" by simp
  from wf_search_loop [OF d(3) this] obtain infos where
    "search_loop stmts [] = Inr infos" "list_all is_selector infos" by blast
  with d show ?thesis
    by (simp add: search_rules_with_counter_def delete_rules_command_def
          build_delete_command_def delete_loop_append metainfo_entry_def)
qed

theorem search_and_delete_total_witness:
  "wf_ruleset (listed_ruleset zero_counter)
   \<and> search_rules_with_counter (listed_ruleset zero_counter) = Inr [selector 3]
   \<and> is_selector (selector 3)
   \<and> delete_rules_command (listed_ruleset zero_counter) =
       Inr (JObj [(''nftables'',
              JArr [JObj [(''metainfo'', JObj [(''json_schema_version'', JInt 1)])],
                    JObj [(''delete'',
                       JObj [(''family'', JStr ''inet''), (''table'', JStr ''mytable''),
                             (''chain'', JStr ''mychain''), (''handle'', JInt 3)])]])])"
proof -
  have w: "wf_ruleset (listed_ruleset zero_counter)"
    by (simp add: fixture_defs wf_ruleset_def wf_statement_def wf_rule_def tagged_def)
  have "search_rules_with_counter (listed_ruleset zero_counter) = Inr [selector 3]"
    by (simp add: fixture_defs search_rules_with_counter_def rule_has_counter_def rule_info_def)
  with w search_and_delete_total [OF w] show ?thesis by (auto simp: selector_def)
qed

text \<open>
  C6. A statement that is a dict without the key \<^verbatim>\<open>rule\<close> is skipped: wherever it
  stands in the document, the search gives the same result, be it a list of selectors
  or an exception raised by another entry, as on the document without that statement.
  On a document none of whose statements has the key \<^verbatim>\<open>rule\<close> the search returns the
  empty list.
\<close>

theorem non_rule_statements_skipped:
  "(is_dict stmt \<and> \<not> tagged ''rule'' stmt \<longrightarrow>
      search_loop (pre @ stmt # post) ret = search_loop (pre @ post) ret)
   \<and> (field ''nftables'' doc = Some (JArr stmts) \<and> list_all is_dict stmts
        \<and> \<not> list_ex (tagged ''rule'') stmts \<longrightarrow>
      search_rules_with_counter doc = Inr [])"
proof (intro conjI impI)
  assume "is_dict stmt \<and> \<not> tagged ''rule'' stmt"
  then show "search_loop (pre @ stmt # post) ret = search_loop (pre @ post) ret"
    by (simp add: search_loop_append search_loop_untagged del: search_loop.simps
          cong: sum.case_cong)
next
  assume a: "field ''nftables'' doc = Some (JArr stmts) \<and> list_all is_dict stmts
        \<and> \<not> list_ex (tagged ''rule'') stmts"
  have "list_all is_dict ss \<Longrightarrow> \<not> list_ex (tagged ''rule'') ss \<Longrightarrow> search_loop ss r = Inr r"
    for ss r
    by (induction ss) (simp_all add: search_loop_untagged del: search_loop.simps(2))
  with a have "search_loop stmts [] = Inr []" by simp
  with a show "search_rules_with_counter doc = Inr []"
    by (cases doc) (simp_all add: search_rules_with_counter_def)
qed

theorem non_rule_statements_skipped_witness:
  "is_dict (JObj [(''chain'', JObj [(''name'', JStr ''mychain'')])])
   \<and> \<not> tagged ''rule'' (JObj [(''chain'', JObj [(''name'', JStr ''mychain'')])])
   \<and> search_loop ([listed_rule 3 (tcp_22_counter_exprs zero_counter)]
        @ JObj [(''chain'', JObj [(''name'', JStr ''mychain'')])]
        # [listed_rule 4 (tcp_22_counter_exprs zero_counter)]) []
       = search_loop ([listed_rule 3 (tcp_22_counter_exprs zero_counter)]
           @ [listed_rule 4 (tcp_22_counter_exprs zero_counter)]) []
   \<and> search_loop ([listed_rule 3 (tcp_22_counter_exprs zero_counter)]
           @ [listed_rule 4 (tcp_22_counter_exprs zero_counter)]) [] = Inr [selector 3, selector 4]
   \<and> search_rules_with_counter (JObj [(''nftables'', JArr (take 3 (listed_statements zero_counter)))])
       = Inr []"
proof -
  have h1: "is_dict (JObj [(''chain'', JObj [(''name'', JStr ''mychain'')])])
            \<and> \<not> tagged ''rule'' (JObj [(''chain'', JObj [(''name'', JStr ''mychain'')])])"
    by (simp add: tagged_def)
  have h2: "field ''nftables'' (JObj [(''nftables'', JArr (take 3 (listed_statements zero_counter)))])
              = Some (JArr (take 3 (listed_statements zero_counter)))
            \<and> list_all is_dict (take 3 (listed_statements zero_counter))
            \<and> \<not> list_ex (tagged ''rule'') (take 3 (listed_statements zero_counter))"
    by (simp add: fixture_defs tagged_def)
  have h3: "search_loop ([listed_rule 3 (tcp_22_counter_exprs zero_counter)]
           @ [listed_rule 4 (tcp_22_counter_exprs zero_counter)]) [] = Inr [selector 3, selector 4]"
    by (simp add: fixture_defs rule_has_counter_def rule_info_def)
  from non_rule_statements_skipped
         [of "JObj [(''chain'', JObj [(''name'', JStr ''mychain'')])]"
             "[listed_rule 3 (tcp_22_counter_exprs zero_counter)]"
             "[listed_rule 4 (tcp_22_counter_exprs zero_counter)]" "[]"
             "JObj [(''nftables'', JArr (take 3 (listed_statements zero_counter)))]"
             "take 3 (listed_statements zero_counter)"]
       h1 h2 h3
  show ?thesis by (simp del: search_loop.simps append.simps)
qed

text \<open>
  C9. A statement whose key \<^verbatim>\<open>rule\<close> maps to a falsy payload (\<^verbatim>\<open>None\<close>, an empty
  dict, an empty list or string, zero, \<^verbatim>\<open>False\<close>) is skipped like a statement without
  the key: wherever it stands, the search gives the same result as on the document
  without it, so it raises nothing and contributes no selector.
\<close>

theorem falsy_rule_payload_skipped:
  assumes "field ''rule'' stmt = Some payload" and "\<not> truthy payload"
  shows "search_loop (pre @ stmt # post) ret = search_loop (pre @ post) ret"
  using assms
  by (simp add: search_loop_append search_loop_falsy del: search_loop.simps cong: sum.case_cong)

theorem falsy_rule_payload_skipped_witness:
  "field ''rule'' (JObj [(''rule'', JObj [])]) = Some (JObj []) \<and> \<not> truthy (JObj [])
   \<and> field ''rule'' (JObj [(''rule'', JNull)]) = Some JNull \<and> \<not> truthy JNull
   \<and> search_loop ([listed_rule 3 (tcp_22_counter_exprs zero_counter)]
                    @ JObj [(''rule'', JObj [])] # [JObj [(''rule'', JNull)]]) []
       = Inr [selector 3]"
proof -
  have h1: "field ''rule'' (JObj [(''rule'', JObj [])]) = Some (JObj [])" by simp
  have h2: "\<not> truthy (JObj [])" by simp
  have h3: "field ''rule'' (JObj [(''rule'', JNull)]) = Some JNull" by simp
  have h4: "\<not> truthy JNull" by simp
  have h5: "search_loop ([listed_rule 3 (tcp_22_counter_exprs zero_counter)] @ []) []
              = Inr [selector 3]"
    by (simp add: fixture_defs rule_has_counter_def rule_info_def)
  have "search_loop ([listed_rule 3 (tcp_22_counter_exprs zero_counter)]
                    @ JObj [(''rule'', JObj [])] # [JObj [(''rule'', JNull)]]) []
        = search_loop ([listed_rule 3 (tcp_22_counter_exprs zero_counter)]
                    @ [JObj [(''rule'', JNull)]]) []"
    by (rule falsy_rule_payload_skipped [OF h1 h2])
  also have "\<dots> = search_loop ([listed_rule 3 (tcp_22_counter_exprs zero_counter)] @ []) []"
    by (rule falsy_rule_payload_skipped [OF h3 h4])
  finally show ?thesis using h1 h2 h3 h4 h5 by simp
qed

text \<open>
  On well-formed statements in which no \<^verbatim>\<open>"counter"\<close> key holds \<^verbatim>\<open>null\<close>, the search
  returns what the specification's \<^verbatim>\<open>find_matching_rules\<close> with \<^verbatim>\<open>has_counter\<close>
  describes: the selectors of the rules with a \<^verbatim>\<open>counter\<close> entry, in document order.
\<close>

lemma rule_has_counter_loop_spec:
  "list_all is_dict es \<Longrightarrow> list_all (\<lambda>e. field ''counter'' e \<noteq> Some JNull) es \<Longrightarrow>
     rule_has_counter_loop es = Inr (list_ex (tagged ''counter'') es)"
proof (induction es)
  case Nil
  show ?case by simp
next
  case (Cons e es)
  from Cons.prems obtain kvs where e: "e = JObj kvs" by (cases e) simp_all
  with Cons show ?case by (auto simp: tagged_def split: option.splits)
qed

lemma wf_rule_selector:
  assumes "wf_rule rule"
  shows "\<exists>info. rule_info rule = Inr info \<and> selector_spec rule = Some info \<and> truthy rule"
proof -
  from assms obtain kvs where k: "rule = JObj kvs" by (cases rule) (simp_all add: wf_rule_def)
  with assms obtain f t c h where
    "map_of kvs ''family'' = Some f" "map_of kvs ''table'' = Some t"
    "map_of kvs ''chain'' = Some c" "map_of kvs ''handle'' = Some h"
    by (auto simp: wf_rule_def tagged_def)
  with k show ?thesis by (auto simp: rule_info_def selector_spec_def)
qed

lemma search_loop_refines_spec:
  "list_all wf_statement stmts \<Longrightarrow> list_all counters_have_values stmts \<Longrightarrow>
     search_loop stmts ret = Inr (ret @ find_matching_rules_spec has_counter_spec stmts)"
proof (induction stmts arbitrary: ret)
  case Nil
  show ?case by (simp add: find_matching_rules_spec_def map_filter_simps)
next
  case (Cons stmt stmts)
  from Cons.prems obtain kvs where s: "stmt = JObj kvs"
    by (cases stmt) (simp_all add: wf_statement_def)
  from Cons.prems have rest: "list_all wf_statement stmts" "list_all counters_have_values stmts"
    by simp_all
  note IH = Cons.IH [OF rest]
  show ?case
  proof (cases "map_of kvs ''rule''")
    case None
    with s IH [of ret] show ?thesis
      by (simp add: find_matching_rules_spec_def map_filter_simps)
  next
    case (Some rule)
    with s Cons.prems have w: "wf_rule rule" by (simp add: wf_statement_def)
    then obtain rkvs es where r: "rule = JObj rkvs" "map_of rkvs ''expr'' = Some (JArr es)"
        "list_all is_dict es"
      by (cases rule) (auto simp: wf_rule_def split: option.splits json.splits)
    from Cons.prems s Some r have "list_all (\<lambda>e. field ''counter'' e \<noteq> Some JNull) es"
      by (simp add: counters_have_values_def)
    from rule_has_counter_loop_spec [OF r(3) this] r
    have hc: "rule_has_counter rule = Inr (has_counter_spec rule)"
      by (simp add: rule_has_counter_def has_counter_spec_def)
    from wf_rule_selector [OF w] obtain info where
      i: "rule_info rule = Inr info" "selector_spec rule = Some info" "truthy rule" by blast
    show ?thesis
    proof (cases "has_counter_spec rule")
      case True
      with s Some hc i IH [of "ret @ [info]"] show ?thesis
        by (simp add: find_matching_rules_spec_def map_filter_simps)
    next
      case False
      with s Some hc i IH [of ret] show ?thesis
        by (simp add: find_matching_rules_spec_def map_filter_simps)
    qed
  qed
qed

text \<open>
  C1. The specification asks for the selectors of all rules whose \<^verbatim>\<open>expr\<close> has an
  entry tagged \<^verbatim>\<open>counter\<close>, in document order. On the well-formed listing whose
  second rule counts with \<^verbatim>\<open>{"counter": null}\<close>, that is the selector of handle 3,
  and the search returns the empty list.
\<close>

theorem search_misses_null_counter:
  "search_rules_with_counter (listed_ruleset JNull) = Inr []
   \<and> find_matching_rules_spec has_counter_spec (listed_statements JNull) = [selector 3]
   \<and> wf_ruleset (listed_ruleset JNull)"
proof (intro conjI)
  show "search_rules_with_counter (listed_ruleset JNull) = Inr []"
    by (simp add: fixture_defs search_rules_with_counter_def rule_has_counter_def)
  show "find_matching_rules_spec has_counter_spec (listed_statements JNull) = [selector 3]"
    by (simp add: fixture_defs find_matching_rules_spec_def has_counter_spec_def tagged_def
          selector_spec_def map_filter_simps)
  show "wf_ruleset (listed_ruleset JNull)"
    by (simp add: fixture_defs wf_ruleset_def wf_statement_def wf_rule_def tagged_def)
qed

text \<open>
  C2. The specification asks for \<^verbatim>\<open>True\<close> on every rule with an entry tagged
  \<^verbatim>\<open>counter\<close>, whatever the value under that key. On the second rule of the script's
  own ruleset literal, whose \<^verbatim>\<open>expr\<close> holds \<^verbatim>\<open>{"counter": null}\<close>,
  \<^verbatim>\<open>rule_has_counter\<close> returns \<^verbatim>\<open>False\<close> although the rule has an entry tagged
  \<^verbatim>\<open>counter\<close>; with a counter value other than \<^verbatim>\<open>null\<close> it returns \<^verbatim>\<open>True\<close>.
\<close>

theorem rule_has_counter_null_is_false:
  "(\<exists>stmts add. py_getitem NFTABLES_RULESET_JSON ''nftables'' = Inr (JArr stmts)
       \<and> py_getitem (stmts ! 4) ''add'' = Inr add
       \<and> py_getitem add ''rule'' = Inr (literal_rule (tcp_22_counter_exprs JNull)))
   \<and> rule_has_counter (literal_rule (tcp_22_counter_exprs JNull)) = Inr False
   \<and> has_counter_spec (literal_rule (tcp_22_counter_exprs JNull))
   \<and> rule_has_counter (literal_rule (tcp_22_counter_exprs zero_counter)) = Inr True"
proof (intro conjI)
  show "\<exists>stmts add. py_getitem NFTABLES_RULESET_JSON ''nftables'' = Inr (JArr stmts)
       \<and> py_getitem (stmts ! 4) ''add'' = Inr add
       \<and> py_getitem add ''rule'' = Inr (literal_rule (tcp_22_counter_exprs JNull))"
    by (simp add: NFTABLES_RULESET_JSON_def)
  show "rule_has_counter (literal_rule (tcp_22_counter_exprs JNull)) = Inr False"
    by (simp add: fixture_defs rule_has_counter_def)
  show "has_counter_spec (literal_rule (tcp_22_counter_exprs JNull))"
    by (simp add: fixture_defs has_counter_spec_def tagged_def)
  show "rule_has_counter (literal_rule (tcp_22_counter_exprs zero_counter)) = Inr True"
    by (simp add: fixture_defs rule_has_counter_def)
qed

section \<open>Reading counters and quotas\<close>

lemma find_objects_loop_dicts:
  "list_all is_dict objs \<Longrightarrow>
     \<exists>vs. find_objects_loop objs t acc = Inr (acc @ vs)
        \<and> map Inr vs = map (\<lambda>obj. py_getitem obj t) (filter (tagged t) objs)"
proof (induction objs arbitrary: acc)
  case Nil
  show ?case by simp
next
  case (Cons obj objs)
  from Cons.prems obtain kvs where k: "obj = JObj kvs" by (cases obj) simp_all
  from Cons.prems have rest: "list_all is_dict objs" by simp
  show ?case
  proof (cases "map_of kvs t")
    case None
    from Cons.IH [OF rest, of acc] k None show ?thesis by (simp add: tagged_def)
  next
    case (Some v)
    from Cons.IH [OF rest, of "acc @ [v]"] obtain vs where
      "find_objects_loop objs t (acc @ [v]) = Inr ((acc @ [v]) @ vs)"
      "map Inr vs = map (\<lambda>obj. py_getitem obj t) (filter (tagged t) objs)" by blast
    with k Some have "find_objects_loop (obj # objs) t acc = Inr (acc @ (v # vs))
        \<and> map Inr (v # vs) = map (\<lambda>obj. py_getitem obj t) (filter (tagged t) (obj # objs))"
      by (simp add: tagged_def)
    then show ?thesis by blast
  qed
qed

text \<open>
  C10. For every list \<open>R\<close> of dict entries and every tag \<open>t\<close>, \<^verbatim>\<open>_find_objects\<close> raises
  nothing and returns the payloads \<^verbatim>\<open>o[t]\<close> of the entries that have the key \<open>t\<close>, in
  the order of the entries; entries without the key add nothing.
\<close>

theorem find_objects_payloads:
  assumes "list_all is_dict R"
  shows "\<exists>payloads. find_objects (JArr R) t = Inr payloads
           \<and> map Inr payloads = map (\<lambda>obj. py_getitem obj t) (filter (tagged t) R)
           \<and> length payloads = length (filter (tagged t) R)"
proof -
  from find_objects_loop_dicts [OF assms, of t "[]"] obtain vs where
    vs: "find_objects_loop R t [] = Inr vs"
        "map Inr vs = map (\<lambda>obj. py_getitem obj t) (filter (tagged t) R)" by auto
  from vs(2) have "length vs = length (filter (tagged t) R)"
    by (metis length_map)
  with vs show ?thesis by (simp add: find_objects_def)
qed

theorem find_objects_payloads_witness:
  "list_all is_dict (listed_counters 1)
   \<and> find_objects (JArr (listed_counters 1)) ''counter'' =
       Inr [JObj [(''family'', JStr ''ip''), (''name'', JStr ''mycounter''),
                  (''table'', JStr ''mytable''), (''handle'', JInt 1),
                  (''packets'', JInt 0), (''bytes'', JInt 0)]]"
proof -
  have h: "list_all is_dict (listed_counters 1)" by (simp add: listed_counters_def)
  from find_objects_payloads [OF h, of "''counter''"] h show ?thesis
    by (auto simp: listed_counters_def tagged_def)
qed





section \<open>The search on a store\<close>

text \<open>What \<open>repr\<close> says of a list and of a dict, as existence of the cell.\<close>

lemma repr_JArr:
  "repr A s v (JArr js) \<longleftrightarrow>
     (\<exists>a vs. v = VRef a \<and> a \<in> A \<and> cells s a = OList vs \<and> list_all2 (repr A s) vs js)"
  by (auto split: val.splits obj.splits)


lemma repr_JObj:
  "repr A s v (JObj jkvs) \<longleftrightarrow>
     (\<exists>a kvs. v = VRef a \<and> a \<in> A \<and> cells s a = ODict kvs
        \<and> list_all2 (\<lambda>kv jkv. fst kv = fst jkv \<and> repr A s (snd kv) (snd jkv)) kvs jkvs)"
  by (auto split: val.splits obj.splits)

declare repr.simps(5,6) [simp del]

lemma map_of_rel:
  "list_all2 (\<lambda>kv jkv. fst kv = fst jkv \<and> R (snd kv) (snd jkv)) kvs jkvs \<Longrightarrow>
     rel_option R (map_of kvs k) (map_of jkvs k)"
  by (induction rule: list_all2_induct) auto

text \<open>
  A document stays where it is as long as the cells it occupies are not written, and
  it is found within any larger set of cells.
\<close>

lemma repr_frame:
  "repr A s v j \<Longrightarrow> (\<And>a. a \<in> A \<Longrightarrow> cells s' a = cells s a) \<Longrightarrow> A \<subseteq> B \<Longrightarrow> repr B s' v j"
proof (induction j arbitrary: v)
  case (JArr js)
  from JArr.prems(1) obtain a vs where v: "v = VRef a" "a \<in> A" "cells s a = OList vs"
      "list_all2 (repr A s) vs js" by (auto simp: repr_JArr)
  from v(4) have "list_all2 (repr B s') vs js"
  proof (rule list.rel_mono_strong)
    fix x y assume "x \<in> set vs" "y \<in> set js" "repr A s x y"
    with JArr.IH [of y x] JArr.prems(2,3) show "repr B s' x y" by blast
  qed
  with v JArr.prems(2,3) show ?case by (auto simp: repr_JArr)
next
  case (JObj jkvs)
  from JObj.prems(1) obtain a kvs where v: "v = VRef a" "a \<in> A" "cells s a = ODict kvs"
      "list_all2 (\<lambda>kv jkv. fst kv = fst jkv \<and> repr A s (snd kv) (snd jkv)) kvs jkvs"
    by (auto simp: repr_JObj)
  from v(4) have "list_all2 (\<lambda>kv jkv. fst kv = fst jkv \<and> repr B s' (snd kv) (snd jkv)) kvs jkvs"
  proof (rule list.rel_mono_strong)
    fix x y assume xy: "x \<in> set kvs" "y \<in> set jkvs" "fst x = fst y \<and> repr A s (snd x) (snd y)"
    have "snd y \<in> Basic_BNFs.snds y" by (cases y) simp
    with JObj.IH [OF xy(2) this, of "snd x"] xy(3) JObj.prems(2,3)
    show "fst x = fst y \<and> repr B s' (snd x) (snd y)" by blast
  qed
  with v JObj.prems(2,3) show ?case by (auto simp: repr_JObj)
qed simp_all

text \<open>Reading a document in the store gives what reading the decoded document gives.\<close>

lemma repr_getitem:
  assumes "repr A s v j"
  shows "rel_sum (=) (repr A s) (h_getitem s v k) (py_getitem j k)"
proof (cases j)
  case (JObj jkvs)
  with assms obtain a kvs where v: "v = VRef a" "a \<in> A" "cells s a = ODict kvs"
      "list_all2 (\<lambda>kv jkv. fst kv = fst jkv \<and> repr A s (snd kv) (snd jkv)) kvs jkvs"
    by (auto simp: repr_JObj)
  from map_of_rel [OF v(4), of k] v(1,3) JObj show ?thesis
    by (cases "map_of kvs k"; cases "map_of jkvs k") simp_all
next
  case (JArr js)
  with assms show ?thesis by (auto simp: repr_JArr)
qed (use assms in simp_all)

lemma repr_get:
  assumes "repr A s v j"
  shows "rel_sum (=) (repr A s) (h_get s v k) (py_get j k)"
proof (cases j)
  case (JObj jkvs)
  with assms obtain a kvs where v: "v = VRef a" "a \<in> A" "cells s a = ODict kvs"
      "list_all2 (\<lambda>kv jkv. fst kv = fst jkv \<and> repr A s (snd kv) (snd jkv)) kvs jkvs"
    by (auto simp: repr_JObj)
  from map_of_rel [OF v(4), of k] v(1,3) JObj show ?thesis
    by (cases "map_of kvs k"; cases "map_of jkvs k") simp_all
next
  case (JArr js)
  with assms show ?thesis by (auto simp: repr_JArr)
qed (use assms in simp_all)

lemma repr_truthy:
  assumes "repr A s v j"
  shows "h_truthy s v = truthy j"
proof (cases j)
  case (JObj jkvs)
  with assms show ?thesis by (auto simp: repr_JObj)
next
  case (JArr js)
  with assms show ?thesis by (auto simp: repr_JArr)
qed (use assms in simp_all)

lemma repr_None: "repr A s v j \<Longrightarrow> v = VNone \<longleftrightarrow> j = JNull"
  by (cases j) (auto simp: repr_JArr repr_JObj)

lemma repr_iter:
  assumes "repr A s v j"
  shows "rel_sum (=) (list_all2 (repr A s)) (h_iter s v) (py_iter j)"
proof (cases j)
  case (JObj jkvs)
  with assms obtain a kvs where v: "v = VRef a" "a \<in> A" "cells s a = ODict kvs"
      "list_all2 (\<lambda>kv jkv. fst kv = fst jkv \<and> repr A s (snd kv) (snd jkv)) kvs jkvs"
    by (auto simp: repr_JObj)
  from v(4) have "list_all2 (repr A s) (map (\<lambda>kv. VStr (fst kv)) kvs) (map (\<lambda>kv. JStr (fst kv)) jkvs)"
    by (induction rule: list_all2_induct) simp_all
  with v JObj show ?thesis by simp
next
  case (JArr js)
  with assms show ?thesis by (auto simp: repr_JArr)
next
  case (JStr str)
  have "list_all2 (repr A s) (map (\<lambda>c. VStr [c]) str) (map (\<lambda>c. JStr [c]) str)"
    by (induction str) simp_all
  with assms JStr show ?thesis by simp
qed (use assms in simp_all)

lemma rule_has_counter_loop_h_eq:
  "list_all2 (repr A s) vs js \<Longrightarrow> rule_has_counter_loop_h s vs = rule_has_counter_loop js"
proof (induction rule: list_all2_induct)
  case Nil
  show ?case by simp
next
  case (Cons v vs j js)
  from repr_get [OF Cons.hyps(1), of "''counter''"] Cons.IH show ?case
    by (cases "h_get s v ''counter''"; cases "py_get j ''counter''") (auto simp: repr_None)
qed

lemma rule_has_counter_h_eq:
  assumes "repr A s v j"
  shows "rule_has_counter_h s v = rule_has_counter j"
proof -
  note g = repr_getitem [OF assms, of "''expr''"]
  show ?thesis
  proof (cases "py_getitem j ''expr''")
    case (Inl e)
    with g show ?thesis
      by (cases "h_getitem s v ''expr''") (simp_all add: rule_has_counter_h_def rule_has_counter_def)
  next
    case (Inr je)
    with g obtain ve where ve: "h_getitem s v ''expr'' = Inr ve" "repr A s ve je"
      by (cases "h_getitem s v ''expr''") simp_all
    from repr_iter [OF ve(2)] ve(1) Inr show ?thesis
      by (cases "h_iter s ve"; cases "py_iter je")
         (simp_all add: rule_has_counter_h_def rule_has_counter_def rule_has_counter_loop_h_eq)
  qed
qed


lemma repr_getitem_cases:
  assumes "repr A s v j"
  shows "(\<exists>e. h_getitem s v k = Inl e \<and> py_getitem j k = Inl e)
       \<or> (\<exists>x y. h_getitem s v k = Inr x \<and> py_getitem j k = Inr y \<and> repr A s x y)"
  using repr_getitem [OF assms, of k]
  by (cases "h_getitem s v k"; cases "py_getitem j k") simp_all

lemma rule_info_h_refines:
  assumes "repr B s v j" and "B \<subseteq> {a. a < free s}"
  shows "case rule_info j of
           Inl e \<Rightarrow> rule_info_h s v = Inl e
         | Inr info \<Rightarrow>
             (\<exists>s1. rule_info_h s v = Inr (s1, VRef (free s))
                \<and> free s1 = Suc (free s)
                \<and> (\<forall>a. a \<noteq> free s \<longrightarrow> cells s1 a = cells s a)
                \<and> repr (insert (free s) B) s1 (VRef (free s)) info)"
proof -
  note g = repr_getitem_cases [OF assms(1)]
  have fr: "repr (insert (free s) B) (s\<lparr>cells := (cells s)(free s := ob), free := Suc (free s)\<rparr>) x y"
    if "repr B s x y" for x y ob
    using that
  proof (rule repr_frame)
    fix a assume "a \<in> B"
    with assms(2) have "a \<noteq> free s" by auto
    then show "cells (s\<lparr>cells := (cells s)(free s := ob), free := Suc (free s)\<rparr>) a = cells s a"
      by simp
  qed auto
  show ?thesis
    using g [of "''family''"] g [of "''table''"] g [of "''chain''"] g [of "''handle''"]
    by (elim disjE exE conjE) (simp_all add: rule_info_h_def rule_info_def alloc_def repr_JObj fr)
qed

text \<open>
  One pass of the loop body on the store does what one step of \<open>search_loop\<close> does on
  the decoded statement; it writes the cell of \<^verbatim>\<open>ret\<close> and cells that were free, and
  nothing else.
\<close>

lemma live_below: "live s r \<subseteq> {a. a < free s}"
  by (auto simp: live_def)

lemma search_body_h_refines:
  assumes obj: "repr (live s r) s object j"
    and r: "r < free s" "cells s r = OList rs"
    and rs: "list_all2 (repr (live s r) s) rs jrs" "fresh_refs r s rs"
  shows "\<exists>s' e. search_body_h s object (VRef r) = (s', e)
           \<and> free s \<le> free s' \<and> (\<forall>a\<in>live s r. cells s' a = cells s a)
           \<and> (case e of
                Some err \<Rightarrow> search_loop [j] jrs = Inl err
              | None \<Rightarrow>
                  (\<exists>rs' jrs'. search_loop [j] jrs = Inr jrs' \<and> cells s' r = OList rs'
                      \<and> list_all2 (repr (live s' r) s') rs' jrs' \<and> fresh_refs r s' rs'))"
proof -
  have skip: ?thesis
    if "search_body_h s object (VRef r) = (s, None)" "search_loop [j] jrs = Inr jrs"
    using that r rs by auto
  have raise: ?thesis
    if "search_body_h s object (VRef r) = (s, Some e)" "search_loop [j] jrs = Inl e" for e
    using that by auto
  note g = repr_get [OF obj, of "''rule''"]
  show ?thesis
  proof (cases "py_get j ''rule''")
    case (Inl e)
    with g have "h_get s object ''rule'' = Inl e" by (cases "h_get s object ''rule''") simp_all
    with Inl show ?thesis by (intro raise [of e]) (simp_all add: search_body_h_def)
  next
    case (Inr jrule)
    with g obtain rule where rule: "h_get s object ''rule'' = Inr rule" "repr (live s r) s rule jrule"
      by (cases "h_get s object ''rule''") simp_all
    note t = repr_truthy [OF rule(2)]
    note hc = rule_has_counter_h_eq [OF rule(2)]
    show ?thesis
    proof (cases "truthy jrule")
      case False
      with Inr rule t show ?thesis by (intro skip) (simp_all add: search_body_h_def)
    next
      case True
      show ?thesis
      proof (cases "rule_has_counter jrule")
        case (Inl e)
        with Inr rule t hc True show ?thesis
          by (intro raise [of e]) (simp_all add: search_body_h_def)
      next
        case has: (Inr has)
        show ?thesis
        proof (cases has)
          case False
          with has Inr rule t hc True show ?thesis
            by (intro skip) (simp_all add: search_body_h_def)
        next
          case yes: True
          note ri = rule_info_h_refines [OF rule(2) live_below]
          show ?thesis
          proof (cases "rule_info jrule")
            case (Inl e)
            with ri have "rule_info_h s rule = Inl e" by simp
            with Inl yes has Inr rule t hc True show ?thesis
              by (intro raise [of e]) (simp_all add: search_body_h_def)
          next
            case info: (Inr info)
            with ri obtain s1 where s1: "rule_info_h s rule = Inr (s1, VRef (free s))"
                "free s1 = Suc (free s)" "\<forall>a. a \<noteq> free s \<longrightarrow> cells s1 a = cells s a"
                "repr (insert (free s) (live s r)) s1 (VRef (free s)) info" by auto
            define s2 where "s2 = s1\<lparr>cells := (cells s1)(r := OList (rs @ [VRef (free s)]))\<rparr>"
            from r s1(3) have c1: "cells s1 r = OList rs" by simp
            then have app: "h_append s1 (VRef r) (VRef (free s)) = Inr s2"
              by (simp add: s2_def)
            have body: "search_body_h s object (VRef r) = (s2, None)"
              using rule t hc True has yes s1(1) app by (simp add: search_body_h_def)
            have pure: "search_loop [j] jrs = Inr (jrs @ [info])"
              using Inr True has yes info by simp
            have fr2: "free s2 = Suc (free s)" using s1(2) by (simp add: s2_def)
            have frame: "cells s2 a = cells s a" if "a \<in> live s r" for a
              using that s1(3) by (auto simp: s2_def live_def)
            have sub: "live s r \<subseteq> live s2 r" using fr2 by (auto simp: live_def)
            have old: "list_all2 (repr (live s2 r) s2) rs jrs"
              using rs(1)
            proof (rule list.rel_mono_strong)
              fix x y assume "repr (live s r) s x y"
              then show "repr (live s2 r) s2 x y" using frame sub by (rule repr_frame)
            qed
            have new: "repr (live s2 r) s2 (VRef (free s)) info"
              using s1(4)
            proof (rule repr_frame)
              fix a assume "a \<in> insert (free s) (live s r)"
              with r(1) have "a \<noteq> r" by (auto simp: live_def)
              then show "cells s2 a = cells s1 a" by (simp add: s2_def)
            next
              show "insert (free s) (live s r) \<subseteq> live s2 r"
                using r(1) fr2 by (auto simp: live_def)
            qed
            have rel: "list_all2 (repr (live s2 r) s2) (rs @ [VRef (free s)]) (jrs @ [info])"
              using old new by (simp add: list_all2_appendI)
            have fresh: "fresh_refs r s2 (rs @ [VRef (free s)])"
              using rs(2) r(1) fr2
              by (auto simp: fresh_refs_def list_all_iff split: val.splits)
            have "cells s2 r = OList (rs @ [VRef (free s)])" by (simp add: s2_def)
            with body pure fr2 frame rel fresh show ?thesis by auto
          qed
        qed
      qed
    qed
  qed
qed


text \<open>The loop on the store returns, and refines \<open>search_loop\<close>.\<close>

lemma h_next_Nil:
  "iter_items s it = [] \<Longrightarrow> h_next s it = None"
proof (cases it)
  case (ListIter a i)
  assume "iter_items s it = []"
  with ListIter show ?thesis by (cases "cells s a") simp_all
next
  case (ItemsIter vs)
  assume "iter_items s it = []"
  with ItemsIter show ?thesis by simp
qed

lemma h_next_Cons:
  assumes "iter_items s it = x # xs" and "iter_ok A it"
  shows "\<exists>it'. h_next s it = Some (x, it') \<and> iter_ok A it'
           \<and> (\<forall>s'. (\<forall>a\<in>A. cells s' a = cells s a) \<longrightarrow> iter_items s' it' = xs)"
proof (cases it)
  case (ListIter a i)
  with assms obtain ys where ys: "cells s a = OList ys" "drop i ys = x # xs"
    by (cases "cells s a") simp_all
  then have i: "i < length ys" by (cases "i < length ys") simp_all
  from ys(2) i have "ys ! i = x" "drop (Suc i) ys = xs"
    by (simp_all add: Cons_nth_drop_Suc [symmetric])
  with ListIter ys(1) i assms(2) show ?thesis by (simp add: iter_ok_def)
next
  case (ItemsIter vs)
  with assms show ?thesis by (simp add: iter_ok_def)
qed

lemma search_loop_Cons:
  "search_loop (j # js) jrs =
     (case search_loop [j] jrs of Inl e \<Rightarrow> Inl e | Inr r \<Rightarrow> search_loop js r)"
  using search_loop_append [of "[j]" js jrs] by (simp del: search_loop.simps)

lemma search_loop_h_refines:
  assumes "list_all2 (repr (live s r) s) (iter_items s it) js" and "iter_ok (live s r) it"
    and "r < free s" and "cells s r = OList rs"
    and "list_all2 (repr (live s r) s) rs jrs" and "fresh_refs r s rs"
  shows "\<exists>s' e. search_loop_h s it (VRef r) = Some (s', e)
           \<and> free s \<le> free s' \<and> (\<forall>a\<in>live s r. cells s' a = cells s a)
           \<and> (case e of
                Some err \<Rightarrow> search_loop js jrs = Inl err
              | None \<Rightarrow>
                  (\<exists>rs' jrs'. search_loop js jrs = Inr jrs' \<and> cells s' r = OList rs'
                      \<and> list_all2 (repr (live s' r) s') rs' jrs' \<and> fresh_refs r s' rs'))"
  using assms
proof (induction js arbitrary: s it rs jrs rule: list.induct)
  case Nil
  from Nil.prems(1) have "iter_items s it = []" by simp
  then have "h_next s it = None" by (rule h_next_Nil)
  then have "search_loop_h s it (VRef r) = Some (s, None)"
    by (subst search_loop_h.simps) simp
  with Nil.prems show ?case by auto
next
  case (Cons j js)
  from Cons.prems(1) obtain x xs where items: "iter_items s it = x # xs"
      "repr (live s r) s x j" "list_all2 (repr (live s r) s) xs js"
    by (auto simp: list_all2_Cons2)
  from h_next_Cons [OF items(1) Cons.prems(2)] obtain it' where it':
      "h_next s it = Some (x, it')" "iter_ok (live s r) it'"
      "\<forall>s'. (\<forall>a\<in>live s r. cells s' a = cells s a) \<longrightarrow> iter_items s' it' = xs" by blast
  from search_body_h_refines [OF items(2) Cons.prems(3,4,5,6)] obtain s1 e where body:
      "search_body_h s x (VRef r) = (s1, e)" "free s \<le> free s1"
      "\<forall>a\<in>live s r. cells s1 a = cells s a"
      "case e of
         Some err \<Rightarrow> search_loop [j] jrs = Inl err
       | None \<Rightarrow>
           (\<exists>rs' jrs'. search_loop [j] jrs = Inr jrs' \<and> cells s1 r = OList rs'
               \<and> list_all2 (repr (live s1 r) s1) rs' jrs' \<and> fresh_refs r s1 rs')" by blast
  show ?case
  proof (cases e)
    case (Some err)
    with it'(1) body(1) have "search_loop_h s it (VRef r) = Some (s1, Some err)"
      by (subst search_loop_h.simps) simp
    moreover from Some body(4) have "search_loop (j # js) jrs = Inl err"
      by (subst search_loop_Cons) (simp del: search_loop.simps)
    ultimately show ?thesis using body(2,3) by (auto simp del: search_loop.simps)
  next
    case None
    with body(4) obtain rs' jrs' where step: "search_loop [j] jrs = Inr jrs'"
        "cells s1 r = OList rs'" "list_all2 (repr (live s1 r) s1) rs' jrs'" "fresh_refs r s1 rs'"
      by auto
    have sub: "live s r \<subseteq> live s1 r" using body(2) by (auto simp: live_def)
    from it'(3) body(3) have "iter_items s1 it' = xs" by blast
    moreover from items(3) have "list_all2 (repr (live s1 r) s1) xs js"
    proof (rule list.rel_mono_strong)
      fix v w assume "repr (live s r) s v w"
      then show "repr (live s1 r) s1 v w" using body(3) sub by (auto intro: repr_frame)
    qed
    ultimately have a1: "list_all2 (repr (live s1 r) s1) (iter_items s1 it') js" by simp
    from it'(2) sub have a2: "iter_ok (live s1 r) it'"
      by (auto simp: iter_ok_def split: iterator.splits)
    from Cons.prems(3) body(2) have a3: "r < free s1" by simp
    from Cons.IH [OF a1 a2 a3 step(2,3,4)] obtain s2 e2 where rest:
        "search_loop_h s1 it' (VRef r) = Some (s2, e2)" "free s1 \<le> free s2"
        "\<forall>a\<in>live s1 r. cells s2 a = cells s1 a"
        "case e2 of
           Some err \<Rightarrow> search_loop js jrs' = Inl err
         | None \<Rightarrow>
             (\<exists>rs'' jrs''. search_loop js jrs' = Inr jrs'' \<and> cells s2 r = OList rs''
                 \<and> list_all2 (repr (live s2 r) s2) rs'' jrs'' \<and> fresh_refs r s2 rs'')" by blast
    from it'(1) body(1) None rest(1) have "search_loop_h s it (VRef r) = Some (s2, e2)"
      by (subst search_loop_h.simps) simp
    moreover have "search_loop (j # js) jrs = search_loop js jrs'"
      using step(1) by (subst search_loop_Cons) (simp del: search_loop.simps)
    moreover have "\<forall>a\<in>live s r. cells s2 a = cells s a"
      using rest(3) body(3) sub by auto
    moreover have "free s \<le> free s2" using body(2) rest(2) by simp
    ultimately show ?thesis using rest(4) by (auto simp del: search_loop.simps split: option.splits)
  qed
qed

lemma h_iterator_refines:
  assumes "repr A s v j"
  shows "case py_iter j of
           Inl e \<Rightarrow> h_iterator s v = Inl e
         | Inr js \<Rightarrow>
             (\<exists>it. h_iterator s v = Inr it \<and> iter_ok A it
                \<and> list_all2 (repr A s) (iter_items s it) js)"
proof (cases j)
  case (JObj jkvs)
  with assms obtain a kvs where v: "v = VRef a" "a \<in> A" "cells s a = ODict kvs"
      "list_all2 (\<lambda>kv jkv. fst kv = fst jkv \<and> repr A s (snd kv) (snd jkv)) kvs jkvs"
    by (auto simp: repr_JObj)
  from v(4) have "list_all2 (repr A s) (map (\<lambda>kv. VStr (fst kv)) kvs) (map (\<lambda>kv. JStr (fst kv)) jkvs)"
    by (induction rule: list_all2_induct) simp_all
  with v JObj show ?thesis by (simp add: iter_ok_def)
next
  case (JArr js)
  with assms show ?thesis by (auto simp: repr_JArr iter_ok_def)
next
  case (JStr str)
  have "list_all2 (repr A s) (map (\<lambda>c. VStr [c]) str) (map (\<lambda>c. JStr [c]) str)"
    by (induction str) simp_all
  with assms JStr show ?thesis by (simp add: iter_ok_def)
qed (use assms in simp_all)


text \<open>
  C8. Let the store hold the decoded document \<open>doc\<close> at \<open>data_structure\<close> in
  allocated cells. Then the search returns, and in the store it leaves behind every
  cell that was allocated before the call has the content it had, so the document at
  \<open>data_structure\<close> is the same document. If the search raises, it raises what the
  function on decoded documents raises. If it returns, the result is a reference to a
  list in a cell that was free before the call, whose items are references to
  pairwise distinct cells that were free before the call as well, and these hold the
  selectors the function on decoded documents returns: the result depends on the
  document only.
\<close>

theorem search_leaves_input_unchanged:
  assumes "repr {a. a < free s} s data_structure doc"
  shows "\<exists>s' res. search_rules_with_counter_h s data_structure = Some (s', res)
           \<and> free s \<le> free s'
           \<and> (\<forall>a<free s. cells s' a = cells s a)
           \<and> repr {a. a < free s} s' data_structure doc
           \<and> (case res of
                Inl e \<Rightarrow> search_rules_with_counter doc = Inl e
              | Inr v \<Rightarrow>
                  (\<exists>sels infos. v = VRef (free s) \<and> cells s' (free s) = OList sels
                      \<and> fresh_refs (free s) s' sels
                      \<and> search_rules_with_counter doc = Inr infos
                      \<and> list_all2 (repr {a. a < free s'} s') sels infos))"
proof -
  define r where "r = free s"
  define s0 where "s0 = s\<lparr>cells := (cells s)(free s := OList []), free := Suc (free s)\<rparr>"
  have al: "alloc s (OList []) = (s0, r)" by (simp add: alloc_def s0_def r_def)
  have l0: "live s0 r = {a. a < free s}" by (auto simp: live_def s0_def r_def)
  have c0: "cells s0 a = cells s a" if "a < free s" for a using that by (simp add: s0_def)
  have keep: "repr {a. a < free s} s' data_structure doc"
    if "\<forall>a\<in>live s0 r. cells s' a = cells s0 a" for s'
    using assms
  proof (rule repr_frame)
    fix a assume "a \<in> {a. a < free s}"
    with that l0 c0 show "cells s' a = cells s a" by auto
  qed simp
  have d0: "repr (live s0 r) s0 data_structure doc"
    unfolding l0 by (rule keep) simp
  have r0: "r < free s0" "cells s0 r = OList []" by (simp_all add: s0_def r_def)
  have stop: ?thesis
    if "search_rules_with_counter_h s data_structure = Some (s0, Inl e)"
       "search_rules_with_counter doc = Inl e" for e
    using that c0 keep [of s0] by (auto simp: s0_def)
  note g = repr_getitem [OF d0, of "''nftables''"]
  show ?thesis
  proof (cases "py_getitem doc ''nftables''")
    case (Inl e)
    with g have "h_getitem s0 data_structure ''nftables'' = Inl e"
      by (cases "h_getitem s0 data_structure ''nftables''") simp_all
    with Inl al show ?thesis
      by (intro stop [of e])
         (simp_all add: search_rules_with_counter_h_def search_rules_with_counter_def)
  next
    case (Inr jstmts)
    with g obtain stmts where st: "h_getitem s0 data_structure ''nftables'' = Inr stmts"
        "repr (live s0 r) s0 stmts jstmts"
      by (cases "h_getitem s0 data_structure ''nftables''") simp_all
    note i = h_iterator_refines [OF st(2)]
    show ?thesis
    proof (cases "py_iter jstmts")
      case (Inl e)
      with i have "h_iterator s0 stmts = Inl e" by simp
      with Inl Inr st(1) al show ?thesis
        by (intro stop [of e])
           (simp_all add: search_rules_with_counter_h_def search_rules_with_counter_def)
    next
      case js: (Inr js)
      with i obtain it where it: "h_iterator s0 stmts = Inr it" "iter_ok (live s0 r) it"
          "list_all2 (repr (live s0 r) s0) (iter_items s0 it) js" by auto
      have e0: "list_all2 (repr (live s0 r) s0) [] []" "fresh_refs r s0 []"
        by (simp_all add: fresh_refs_def)
      from search_loop_h_refines [OF it(3,2) r0 e0] obtain s' e where loop:
          "search_loop_h s0 it (VRef r) = Some (s', e)" "free s0 \<le> free s'"
          "\<forall>a\<in>live s0 r. cells s' a = cells s0 a"
          "case e of
             Some err \<Rightarrow> search_loop js [] = Inl err
           | None \<Rightarrow>
               (\<exists>rs' jrs'. search_loop js [] = Inr jrs' \<and> cells s' r = OList rs'
                   \<and> list_all2 (repr (live s' r) s') rs' jrs' \<and> fresh_refs r s' rs')" by blast
      have pure: "search_rules_with_counter doc = search_loop js []"
        using Inr js by (simp add: search_rules_with_counter_def)
      have fr: "free s \<le> free s'" using loop(2) by (simp add: s0_def)
      have frame: "\<forall>a<free s. cells s' a = cells s a"
        using loop(3) l0 c0 by auto
      show ?thesis
      proof (cases e)
        case (Some err)
        with loop(1) st(1) it(1) al
        have "search_rules_with_counter_h s data_structure = Some (s', Inl err)"
          by (simp add: search_rules_with_counter_h_def)
        with Some loop(4) pure fr frame keep [OF loop(3)] show ?thesis by auto
      next
        case None
        with loop(1) st(1) it(1) al
        have run: "search_rules_with_counter_h s data_structure = Some (s', Inr (VRef r))"
          by (simp add: search_rules_with_counter_h_def)
        from None loop(4) obtain sels infos where res: "search_loop js [] = Inr infos"
            "cells s' r = OList sels" "list_all2 (repr (live s' r) s') sels infos"
            "fresh_refs r s' sels" by auto
        from res(3) have "list_all2 (repr {a. a < free s'} s') sels infos"
        proof (rule list.rel_mono_strong)
          fix v w assume "repr (live s' r) s' v w"
          then show "repr {a. a < free s'} s' v w"
            by (rule repr_frame) (auto simp: live_def)
        qed
        with run res pure fr frame keep [OF loop(3)] show ?thesis by (auto simp: r_def)
      qed
    qed
  qed
qed


theorem search_leaves_input_unchanged_witness:
  "repr {a. a < free example_store} example_store (VRef 0) example_doc
   \<and> (\<exists>s'. search_rules_with_counter_h example_store (VRef 0) = Some (s', Inr (VRef 10))
         \<and> (\<forall>a<10. cells s' a = example_cells a)
         \<and> repr {a. a < 10} s' (VRef 0) example_doc
         \<and> cells s' 10 = OList [VRef 11]
         \<and> cells s' 11 = ODict [(''family'', VStr ''inet''), (''table'', VStr ''mytable''),
                                 (''chain'', VStr ''mychain''), (''handle'', VInt 3)]
         \<and> search_rules_with_counter example_doc = Inr [selector 3])"
proof -
  have h: "repr {a. a < free example_store} example_store (VRef 0) example_doc"
    by (simp add: example_store_def example_cells_def example_doc_def zero_counter_def repr.simps)
  have run: "search_rules_with_counter_h example_store (VRef 0) =
     Some (\<lparr>cells = example_cells
              (10 := OList [VRef 11],
               11 := ODict [(''family'', VStr ''inet''), (''table'', VStr ''mytable''),
                            (''chain'', VStr ''mychain''), (''handle'', VInt 3)]),
            free = 12\<rparr>, Inr (VRef 10))"
    by (simp add: search_rules_with_counter_h_def example_store_def example_cells_def alloc_def
          search_loop_h.simps search_body_h_def rule_has_counter_h_def rule_info_h_def fun_upd_twist)
  have pure: "search_rules_with_counter example_doc = Inr [selector 3]"
    by (simp add: example_doc_def fixture_defs search_rules_with_counter_def rule_has_counter_def
          rule_info_def)
  from search_leaves_input_unchanged [OF h] run pure h show ?thesis
    by (auto simp: example_store_def)
qed

end
